theory Spec2Isabelle
  imports Main "HOL-Library.Word" "HOL-Library.Signed_Division"
begin

section \<open>The machine model of \<open>structured.cpp\<close>\<close>

text \<open>
  The program computes with C++ \<open>int\<close> and indexes \<open>std::vector<int>\<close> with an \<open>int\<close>
  that is compared against \<open>data.size()\<close>, a \<open>size_t\<close>. The model fixes the usual
  LP64 widths: \<open>int\<close> is a 32-bit two's complement word, \<open>size_t\<close> a 64-bit unsigned
  word. Overflow of a signed \<open>int\<close> operation and an \<open>operator[]\<close> outside the vector
  are undefined behaviour in C++; the model makes each of them a value of \<open>error\<close>,
  at which the computation stops, so that nothing is ever claimed about an execution
  after such a point.
\<close>

type_synonym cint = "32 word"
type_synonym size_t = "64 word"

datatype error = SignedOverflow | OutOfBounds

definition INT_MAX :: int where
  "INT_MAX = 2147483647"

definition INT_MIN :: int where
  "INT_MIN = - 2147483648"

text \<open>\<open>a + b\<close> on \<open>int\<close>, as used by \<open>sum += data[i]\<close>.\<close>

definition add_int :: "cint \<Rightarrow> cint \<Rightarrow> error + cint" where
  "add_int a b =
     (if INT_MIN \<le> sint a + sint b \<and> sint a + sint b \<le> INT_MAX
      then Inr (a + b) else Inl SignedOverflow)"

text \<open>\<open>i++\<close> and \<open>++i\<close> on \<open>int\<close> (the value of the expression is never used).\<close>

definition incr_int :: "cint \<Rightarrow> error + cint" where
  "incr_int i = add_int i 1"

text \<open>
  \<open>a % b\<close> on \<open>int\<close> for a non-zero constant divisor: the remainder of the division
  that truncates towards zero (\<open>smod\<close> of \<open>HOL-Library.Signed_Division\<close>). The
  program only ever divides by the literal 2.
\<close>

definition rem_int :: "cint \<Rightarrow> cint \<Rightarrow> cint" where
  "rem_int a b = word_of_int (sint a smod sint b)"

text \<open>
  The usual arithmetic conversions of \<open>i < data.size()\<close> and the parameter of
  \<open>operator[]\<close> turn the \<open>int\<close> into a \<open>size_t\<close>: sign extension to 64 bits.
\<close>

definition to_size_t :: "cint \<Rightarrow> size_t" where
  "to_size_t i = scast i"

text \<open>
  \<open>data.size()\<close> and \<open>data[n]\<close> of a \<open>const vector<int> &\<close>. A vector is the list
  of its elements; its size fits \<open>size_t\<close>, so a list is a vector when it has fewer
  than \<open>2 ^ 64\<close> elements. The vectors are read only, apart from \<open>evenNumbers\<close>
  of \<open>main\<close>, which grows by \<open>push_back\<close>; running out of memory there is outside
  the model.
\<close>

definition vec_size :: "cint list \<Rightarrow> size_t" where
  "vec_size data = of_nat (length data)"

definition vec_at :: "cint list \<Rightarrow> size_t \<Rightarrow> error + cint" where
  "vec_at data n = (if unat n < length data then Inr (data ! unat n) else Inl OutOfBounds)"

text \<open>What is written to \<open>cout\<close>, one item for each \<open><<\<close>.\<close>

datatype out_item = Str string | Num cint | Endl

section \<open>\<open>is_even\<close>\<close>

definition is_even :: "cint \<Rightarrow> bool" where
  "is_even x = (rem_int x 2 = 0)"

section \<open>\<open>sum_evens_structured\<close>\<close>

text \<open>
  The \<open>for\<close> loop of lines 11 to 15, entered with the current \<open>i\<close> and \<open>sum\<close>
  (\<open>sm\<close> here). \<open>data[i]\<close> is read once for the test and once more for the addition.
\<close>

function sum_loop :: "cint list \<Rightarrow> cint \<Rightarrow> cint \<Rightarrow> error + cint" where
  "sum_loop data i sm =
     (if to_size_t i < vec_size data then
        (case vec_at data (to_size_t i) of
           Inl e \<Rightarrow> Inl e
         | Inr x \<Rightarrow>
            (case (if is_even x
                   then (case vec_at data (to_size_t i) of
                           Inl e \<Rightarrow> Inl e
                         | Inr y \<Rightarrow> add_int sm y)
                   else Inr sm) of
               Inl e \<Rightarrow> Inl e
             | Inr sm' \<Rightarrow>
                (case incr_int i of
                   Inl e \<Rightarrow> Inl e
                 | Inr i' \<Rightarrow> sum_loop data i' sm')))
      else Inr sm)"
  by pat_completeness auto

lemma sint_add_in_range:
  fixes a b :: cint
  assumes "INT_MIN \<le> sint a + sint b" and "sint a + sint b \<le> INT_MAX"
  shows "sint (a + b) = sint a + sint b"
proof -
  have "signed_take_bit 31 (sint a + sint b) = sint a + sint b"
    using assms by (simp add: signed_take_bit_int_eq_self_iff INT_MIN_def INT_MAX_def)
  then show ?thesis by (simp add: sint_word_add)
qed

lemma add_int_Inr:
  "add_int a b = Inr c \<Longrightarrow> c = a + b \<and> sint c = sint a + sint b \<and> sint a + sint b \<le> INT_MAX"
  by (auto simp: add_int_def sint_add_in_range split: if_splits)

lemma incr_int_Inr:
  "incr_int i = Inr i' \<Longrightarrow> i' = i + 1 \<and> sint i' = sint i + 1 \<and> sint i < INT_MAX"
proof -
  assume "incr_int i = Inr i'"
  then have "add_int i 1 = Inr i'"
    by (simp add: incr_int_def)
  from add_int_Inr [OF this] have "i' = i + 1" "sint i' = sint i + sint (1 :: cint)"
    "sint i + sint (1 :: cint) \<le> INT_MAX"
    by blast+
  then show ?thesis by simp
qed

lemma sint_le_INT_MAX: "sint (i :: cint) \<le> INT_MAX"
  using sint_lt [of i] by (simp add: INT_MAX_def)

termination sum_loop
proof (relation "measure (\<lambda>(data, i, sm). nat (INT_MAX - sint i))")
  show "wf (measure (\<lambda>(data :: cint list, i :: cint, sm :: cint). nat (INT_MAX - sint i)))"
    by simp
next
  fix data :: "cint list" and i sm x2 x2a x2b :: cint
  assume "incr_int i = Inr x2b"
  then have "sint x2b = sint i + 1" "sint i < INT_MAX"
    by (simp_all add: incr_int_Inr)
  then show "((data, x2b, x2a), (data, i, sm))
      \<in> measure (\<lambda>(data, i, sm). nat (INT_MAX - sint i))"
    by simp
qed

declare sum_loop.simps [simp del]

definition sum_evens_structured :: "cint list \<Rightarrow> error + out_item list" where
  "sum_evens_structured data =
     (case sum_loop data 0 0 of
        Inl e \<Rightarrow> Inl e
      | Inr sm \<Rightarrow> Inr [Str ''Total: '', Num sm, Endl])"

section \<open>\<open>sum_evens_non_structured\<close>\<close>

text \<open>
  The label-and-jump version is a transition system over the program points of lines
  24 to 36. \<open>Loop_start\<close>, \<open>Next_iteration\<close> and \<open>Loop_end\<close> are the labels of the
  source; the statements without a label are named by their lines. A state is the
  program point with the values of \<open>i\<close> and \<open>sum\<close>.
\<close>

datatype pc = Loop_start | Line_27 | Line_29 | Next_iteration | Line_33 | Loop_end

type_synonym goto_state = "pc \<times> cint \<times> cint"

fun step :: "cint list \<Rightarrow> goto_state \<Rightarrow> error + goto_state" where
  "step data (Loop_start, i, sm) =
     Inr (if vec_size data \<le> to_size_t i then Loop_end else Line_27, i, sm)"
| "step data (Line_27, i, sm) =
     (case vec_at data (to_size_t i) of
        Inl e \<Rightarrow> Inl e
      | Inr x \<Rightarrow> Inr (if rem_int x 2 \<noteq> 0 then Next_iteration else Line_29, i, sm))"
| "step data (Line_29, i, sm) =
     (case vec_at data (to_size_t i) of
        Inl e \<Rightarrow> Inl e
      | Inr x \<Rightarrow>
         (case add_int sm x of
            Inl e \<Rightarrow> Inl e
          | Inr sm' \<Rightarrow> Inr (Next_iteration, i, sm')))"
| "step data (Next_iteration, i, sm) =
     (case incr_int i of
        Inl e \<Rightarrow> Inl e
      | Inr i' \<Rightarrow> Inr (Line_33, i', sm))"
| "step data (Line_33, i, sm) = Inr (Loop_start, i, sm)"
| "step data (Loop_end, i, sm) = Inr (Loop_end, i, sm)"

text \<open>
  \<open>Line_33\<close> is the \<open>goto loop_start\<close>; at \<open>Loop_end\<close> the loop is over and only the
  output of line 36 is left, so \<open>step\<close> stays there.

  Running the jumps until \<open>Loop_end\<close> is reached. Nothing in the shape of the program
  bounds the number of jumps, so the run is a partial function: \<open>None\<close> is a run that
  never reaches \<open>Loop_end\<close> and never stops at undefined behaviour.
\<close>

partial_function (option) goto_run :: "cint list \<Rightarrow> goto_state \<Rightarrow> (error + cint) option" where
  "goto_run data st =
     (if fst st = Loop_end then Some (Inr (snd (snd st)))
      else (case step data st of
              Inl e \<Rightarrow> Some (Inl e)
            | Inr st' \<Rightarrow> goto_run data st'))"

declare goto_run.simps [code]

text \<open>
  The same jumps counted: \<open>steps n\<close> takes \<open>n\<close> of them, whatever the program point,
  and stops at the first undefined behaviour.
\<close>

fun steps :: "nat \<Rightarrow> cint list \<Rightarrow> goto_state \<Rightarrow> error + goto_state" where
  "steps 0 data st = Inr st"
| "steps (Suc n) data st =
     (case step data st of
        Inl e \<Rightarrow> Inl e
      | Inr st' \<Rightarrow> steps n data st')"

definition sum_evens_non_structured :: "cint list \<Rightarrow> (error + out_item list) option" where
  "sum_evens_non_structured data =
     (case goto_run data (Loop_start, 0, 0) of
        None \<Rightarrow> None
      | Some (Inl e) \<Rightarrow> Some (Inl e)
      | Some (Inr sm) \<Rightarrow> Some (Inr [Str ''Total: '', Num sm, Endl]))"

section \<open>\<open>main\<close>\<close>

text \<open>
  The loop of lines 47 to 51, entered with the current \<open>i\<close> and \<open>evenNumbers\<close>;
  \<open>push_back\<close> appends at the end. It tests \<open>numbers[i] % 2 == 0\<close> itself and does
  not call \<open>is_even\<close>.
\<close>

function filter_loop :: "cint list \<Rightarrow> cint \<Rightarrow> cint list \<Rightarrow> error + cint list" where
  "filter_loop numbers i evenNumbers =
     (if to_size_t i < vec_size numbers then
        (case vec_at numbers (to_size_t i) of
           Inl e \<Rightarrow> Inl e
         | Inr x \<Rightarrow>
            (case (if rem_int x 2 = 0
                   then (case vec_at numbers (to_size_t i) of
                           Inl e \<Rightarrow> Inl e
                         | Inr y \<Rightarrow> Inr (evenNumbers @ [y]))
                   else Inr evenNumbers) of
               Inl e \<Rightarrow> Inl e
             | Inr evenNumbers' \<Rightarrow>
                (case incr_int i of
                   Inl e \<Rightarrow> Inl e
                 | Inr i' \<Rightarrow> filter_loop numbers i' evenNumbers')))
      else Inr evenNumbers)"
  by pat_completeness auto

termination filter_loop
proof (relation "measure (\<lambda>(numbers, i, evenNumbers). nat (INT_MAX - sint i))")
  show "wf (measure (\<lambda>(numbers :: cint list, i :: cint, evenNumbers :: cint list).
      nat (INT_MAX - sint i)))"
    by simp
next
  fix numbers x2a :: "cint list" and i x2 x2b :: cint and evenNumbers :: "cint list"
  assume "incr_int i = Inr x2b"
  then have "sint x2b = sint i + 1" "sint i < INT_MAX"
    by (simp_all add: incr_int_Inr)
  then show "((numbers, x2b, x2a), (numbers, i, evenNumbers))
      \<in> measure (\<lambda>(numbers, i, evenNumbers). nat (INT_MAX - sint i))"
    by simp
qed

declare filter_loop.simps [simp del]

text \<open>
  Lines 44 to 51 for any initial \<open>numbers\<close>: \<open>evenNumbers\<close> starts empty and \<open>i\<close> at 0.
\<close>

definition filter_evens :: "cint list \<Rightarrow> error + cint list" where
  "filter_evens numbers = filter_loop numbers 0 []"

text \<open>
  \<open>main\<close> itself: the vector of line 43, the loop, and the output of lines 54 to 57;
  the result pairs what was printed with the exit status.
\<close>

definition main_numbers :: "cint list" where
  "main_numbers = [1, 2, 3, 4, 5, 6, 7, 8, 9, 10]"

definition main :: "error + out_item list \<times> cint" where
  "main =
     (case filter_evens main_numbers of
        Inl e \<Rightarrow> Inl e
      | Inr evenNumbers \<Rightarrow>
          Inr (Str ''Even numbers: '' # concat (map (\<lambda>n. [Num n, Str '' '']) evenNumbers), 0))"

section \<open>The operations of the specification\<close>

text \<open>
  The specification's \<open>sumEvens\<close>, written after its words over mathematical
  integers, for comparison with the loops above: the sum of the elements for which
  \<open>is_even\<close> holds (0 for the empty sequence). Its \<open>filterEvens\<close> is \<open>filter is_even\<close>.
\<close>

definition sumEvens_spec :: "cint list \<Rightarrow> int" where
  "sumEvens_spec S = sum_list (map sint (filter is_even S))"

text \<open>
  Every running total of the even elements, taken in the order of the sequence, is a
  value of \<open>int\<close>: the condition under which no \<open>sum += data[i]\<close> overflows.
\<close>

definition running_sums_in_range :: "cint list \<Rightarrow> bool" where
  "running_sums_in_range data =
     (\<forall>n\<le>length data.
        INT_MIN \<le> sumEvens_spec (take n data) \<and> sumEvens_spec (take n data) \<le> INT_MAX)"

text \<open>
  The specification's \<open>x modulo 2\<close> that truncates towards zero: what is left of
  \<open>x\<close> after taking out the quotient rounded towards zero.
\<close>

definition trunc_quotient :: "int \<Rightarrow> int \<Rightarrow> int" where
  "trunc_quotient a b = (if (a < 0) = (b < 0) then \<bar>a\<bar> div \<bar>b\<bar> else - (\<bar>a\<bar> div \<bar>b\<bar>))"

definition trunc_modulo :: "int \<Rightarrow> int \<Rightarrow> int" where
  "trunc_modulo a b = a - b * trunc_quotient a b"

section \<open>Facts about the machine model\<close>

subsection \<open>Indices, sizes and evenness\<close>

lemma guard_in_bounds:
  assumes "to_size_t i < vec_size data"
  shows "unat (to_size_t i) < length data"
proof -
  have "unat (to_size_t i) < unat (vec_size data)"
    using assms by (simp add: word_less_nat_alt)
  also have "unat (vec_size data) \<le> length data"
    by (simp add: vec_size_def unat_of_nat)
  finally show ?thesis .
qed

lemma vec_at_guard:
  "to_size_t i < vec_size data \<Longrightarrow> vec_at data (to_size_t i) = Inr (data ! unat (to_size_t i))"
  by (simp add: vec_at_def guard_in_bounds)

lemma sint_of_nat_index:
  assumes "int k \<le> INT_MAX"
  shows "sint (of_nat k :: cint) = int k"
  using assms
  by (simp add: INT_MAX_def signed_of_nat signed_take_bit_int_eq_self_iff)

lemma to_size_t_of_nat:
  assumes "int k \<le> INT_MAX"
  shows "to_size_t (of_nat k) = of_nat k"
proof -
  have "sint (of_nat k :: cint) = int k"
    using assms by (rule sint_of_nat_index)
  then show ?thesis
    by (simp add: to_size_t_def scast_eq)
qed

lemma unat_index:
  assumes "int k \<le> INT_MAX"
  shows "unat (of_nat k :: size_t) = k"
  using assms by (simp add: INT_MAX_def unat_of_nat)

lemma size_less_iff:
  assumes "int k \<le> INT_MAX" and "length data < 2 ^ 64"
  shows "(of_nat k :: size_t) < vec_size data \<longleftrightarrow> k < length data"
  using assms by (simp add: vec_size_def word_less_nat_alt unat_of_nat INT_MAX_def)

lemma incr_int_of_nat:
  assumes "int k < INT_MAX"
  shows "incr_int (of_nat k) = Inr (of_nat (Suc k))"
  using assms
  by (simp add: incr_int_def add_int_def sint_of_nat_index INT_MIN_def)

lemma incr_int_INT_MAX:
  assumes "int k = INT_MAX"
  shows "incr_int (of_nat k) = Inl SignedOverflow"
  using assms
  by (simp add: incr_int_def add_int_def sint_of_nat_index)

lemma rem_int_2_eq_0_iff: "rem_int x 2 = 0 \<longleftrightarrow> even (sint x)"
proof -
  have "sint x smod 2 = 0 \<longleftrightarrow> even (sint x)"
    by (auto simp: smod_int_alt_def sgn_if)
  moreover have "(word_of_int (sint x smod 2) :: cint) = 0 \<longleftrightarrow> sint x smod 2 = 0"
  proof -
    have "\<bar>sint x smod 2\<bar> < 2"
      by (auto simp: smod_int_alt_def sgn_if abs_mult)
    then show ?thesis
      by (auto simp: word_of_int_eq_0_iff dest: zdvd_imp_le)
  qed
  ultimately show ?thesis
    by (simp add: rem_int_def)
qed

subsection \<open>The structured loop never reads outside the vector\<close>

lemma sum_loop_unfold:
  assumes "to_size_t i < vec_size data"
  shows "sum_loop data i sm =
     (case (if is_even (data ! unat (to_size_t i)) then add_int sm (data ! unat (to_size_t i))
            else Inr sm) of
        Inl e \<Rightarrow> Inl e
      | Inr sm' \<Rightarrow> (case incr_int i of Inl e \<Rightarrow> Inl e | Inr i' \<Rightarrow> sum_loop data i' sm'))"
  using assms by (subst sum_loop.simps) (simp add: vec_at_guard)

lemma sum_loop_exit:
  assumes "\<not> to_size_t i < vec_size data"
  shows "sum_loop data i sm = Inr sm"
  using assms by (subst sum_loop.simps) simp

lemma add_int_not_OutOfBounds: "add_int a b \<noteq> Inl OutOfBounds"
  by (simp add: add_int_def)

lemma incr_int_not_OutOfBounds: "incr_int i \<noteq> Inl OutOfBounds"
  by (simp add: incr_int_def add_int_not_OutOfBounds)

lemma sum_loop_not_OutOfBounds: "sum_loop data i sm \<noteq> Inl OutOfBounds"
proof (induction data i sm rule: sum_loop.induct)
  case (1 data i sm)
  show ?case
  proof (cases "to_size_t i < vec_size data")
    case False
    then show ?thesis by (simp add: sum_loop_exit)
  next
    case True
    note at = vec_at_guard [OF True]
    show ?thesis
      using "1.IH" [OF True at] at add_int_not_OutOfBounds incr_int_not_OutOfBounds
      by (auto simp: sum_loop_unfold [OF True] split: sum.splits if_splits)
  qed
qed

subsection \<open>The label-and-jump loop computes what the structured loop computes\<close>

lemma goto_run_Loop_end: "goto_run data (Loop_end, i, sm) = Some (Inr sm)"
  by (subst goto_run.simps) simp

lemma goto_run_Loop_start:
  "goto_run data (Loop_start, i, sm) =
     (if vec_size data \<le> to_size_t i then Some (Inr sm) else goto_run data (Line_27, i, sm))"
  by (subst goto_run.simps) (simp add: goto_run_Loop_end)

lemma goto_run_Line_27:
  "goto_run data (Line_27, i, sm) =
     (case vec_at data (to_size_t i) of
        Inl e \<Rightarrow> Some (Inl e)
      | Inr x \<Rightarrow> goto_run data (if rem_int x 2 \<noteq> 0 then Next_iteration else Line_29, i, sm))"
  by (subst goto_run.simps) (simp split: sum.splits)

lemma goto_run_Line_29:
  "goto_run data (Line_29, i, sm) =
     (case vec_at data (to_size_t i) of
        Inl e \<Rightarrow> Some (Inl e)
      | Inr x \<Rightarrow>
         (case add_int sm x of
            Inl e \<Rightarrow> Some (Inl e)
          | Inr sm' \<Rightarrow> goto_run data (Next_iteration, i, sm')))"
  by (subst goto_run.simps) (simp split: sum.splits)

lemma goto_run_Line_33: "goto_run data (Line_33, i, sm) = goto_run data (Loop_start, i, sm)"
  by (subst goto_run.simps) simp

lemma goto_run_Next_iteration:
  "goto_run data (Next_iteration, i, sm) =
     (case incr_int i of
        Inl e \<Rightarrow> Some (Inl e)
      | Inr i' \<Rightarrow> goto_run data (Loop_start, i', sm))"
  by (subst goto_run.simps) (simp add: goto_run_Line_33 split: sum.splits)

lemma goto_run_eq_sum_loop: "goto_run data (Loop_start, i, sm) = Some (sum_loop data i sm)"
proof (induction data i sm rule: sum_loop.induct)
  case (1 data i sm)
  show ?case
  proof (cases "to_size_t i < vec_size data")
    case False
    then have "vec_size data \<le> to_size_t i"
      by (simp add: not_less)
    with False show ?thesis
      by (simp add: goto_run_Loop_start sum_loop_exit)
  next
    case True
    note at = vec_at_guard [OF True]
    let ?x = "data ! unat (to_size_t i)"
    from True have "\<not> vec_size data \<le> to_size_t i"
      by (simp add: not_le)
    then have start: "goto_run data (Loop_start, i, sm) = goto_run data (Line_27, i, sm)"
      by (simp add: goto_run_Loop_start)
    show ?thesis
    proof (cases "is_even ?x")
      case even: True
      show ?thesis
      proof (cases "add_int sm ?x")
        case (Inl e)
        then show ?thesis
          using even at
          by (simp add: start goto_run_Line_27 goto_run_Line_29 sum_loop_unfold [OF True]
              is_even_def)
      next
        case (Inr sm')
        show ?thesis
        proof (cases "incr_int i")
          case (Inl e)
          then show ?thesis
            using even at Inr
            by (simp add: start goto_run_Line_27 goto_run_Line_29 goto_run_Next_iteration
                sum_loop_unfold [OF True] is_even_def)
        next
          case (Inr i')
          have "goto_run data (Loop_start, i', sm') = Some (sum_loop data i' sm')"
            using "1.IH" [OF True at _ Inr, of sm'] even at \<open>add_int sm ?x = Inr sm'\<close>
            by simp
          then show ?thesis
            using even at Inr \<open>add_int sm ?x = Inr sm'\<close>
            by (simp add: start goto_run_Line_27 goto_run_Line_29 goto_run_Next_iteration
                sum_loop_unfold [OF True] is_even_def)
        qed
      qed
    next
      case odd: False
      show ?thesis
      proof (cases "incr_int i")
        case (Inl e)
        then show ?thesis
          using odd at
          by (simp add: start goto_run_Line_27 goto_run_Next_iteration
              sum_loop_unfold [OF True] is_even_def)
      next
        case (Inr i')
        have "goto_run data (Loop_start, i', sm) = Some (sum_loop data i' sm)"
          using "1.IH" [OF True at _ Inr, of sm] odd by simp
        then show ?thesis
          using odd at Inr
          by (simp add: start goto_run_Line_27 goto_run_Next_iteration
              sum_loop_unfold [OF True] is_even_def)
      qed
    qed
  qed
qed

subsection \<open>The filter loop\<close>

lemma filter_loop_unfold:
  assumes "to_size_t i < vec_size numbers"
  shows "filter_loop numbers i evenNumbers =
     (case incr_int i of
        Inl e \<Rightarrow> Inl e
      | Inr i' \<Rightarrow>
          filter_loop numbers i'
            (if rem_int (numbers ! unat (to_size_t i)) 2 = 0
             then evenNumbers @ [numbers ! unat (to_size_t i)] else evenNumbers))"
  using assms by (subst filter_loop.simps) (simp add: vec_at_guard)

lemma filter_loop_exit:
  assumes "\<not> to_size_t i < vec_size numbers"
  shows "filter_loop numbers i evenNumbers = Inr evenNumbers"
  using assms by (subst filter_loop.simps) simp

lemma filter_loop_not_OutOfBounds: "filter_loop numbers i evenNumbers \<noteq> Inl OutOfBounds"
proof (induction numbers i evenNumbers rule: filter_loop.induct)
  case (1 numbers i evenNumbers)
  show ?case
  proof (cases "to_size_t i < vec_size numbers")
    case False
    then show ?thesis by (simp add: filter_loop_exit)
  next
    case True
    note at = vec_at_guard [OF True]
    show ?thesis
      using "1.IH" [OF True at] at incr_int_not_OutOfBounds
      by (auto simp: filter_loop_unfold [OF True] split: sum.splits if_splits)
  qed
qed

text \<open>One pass of each loop at an index written as a natural number.\<close>

lemma index_guard:
  assumes "int k \<le> INT_MAX" and "length data < 2 ^ 64"
  shows "to_size_t (of_nat k) < vec_size data \<longleftrightarrow> k < length data"
  using assms by (simp add: to_size_t_of_nat size_less_iff)

lemma index_unat:
  assumes "int k \<le> INT_MAX"
  shows "unat (to_size_t (of_nat k)) = k"
  using assms by (simp add: to_size_t_of_nat unat_index)

lemma incr_int_index:
  assumes "int k \<le> INT_MAX"
  shows "incr_int (of_nat k) =
    (if int k = INT_MAX then Inl SignedOverflow else Inr (of_nat (Suc k)))"
proof (cases "int k = INT_MAX")
  case True
  then show ?thesis by (simp add: incr_int_INT_MAX)
next
  case False
  with assms have "int k < INT_MAX" by simp
  with False show ?thesis by (simp add: incr_int_of_nat)
qed

lemma sum_loop_at:
  assumes "k < length data" and "int k \<le> INT_MAX" and "length data < 2 ^ 64"
  shows "sum_loop data (of_nat k) sm =
     (case (if is_even (data ! k) then add_int sm (data ! k) else Inr sm) of
        Inl e \<Rightarrow> Inl e
      | Inr sm' \<Rightarrow>
          (if int k = INT_MAX then Inl SignedOverflow else sum_loop data (of_nat (Suc k)) sm'))"
proof -
  have g: "to_size_t (of_nat k) < vec_size data"
    using assms by (simp add: index_guard)
  show ?thesis
    using assms(2)
    by (simp add: sum_loop_unfold [OF g] index_unat incr_int_index split: sum.splits)
qed

lemma sum_loop_end:
  assumes "length data \<le> k" and "int k \<le> INT_MAX" and "length data < 2 ^ 64"
  shows "sum_loop data (of_nat k) sm = Inr sm"
proof -
  have "\<not> to_size_t (of_nat k) < vec_size data"
    using assms by (simp add: index_guard)
  then show ?thesis by (rule sum_loop_exit)
qed

lemma filter_loop_at:
  assumes "k < length numbers" and "int k \<le> INT_MAX" and "length numbers < 2 ^ 64"
  shows "filter_loop numbers (of_nat k) evenNumbers =
     (if int k = INT_MAX then Inl SignedOverflow
      else filter_loop numbers (of_nat (Suc k))
             (if is_even (numbers ! k) then evenNumbers @ [numbers ! k] else evenNumbers))"
proof -
  have g: "to_size_t (of_nat k) < vec_size numbers"
    using assms by (simp add: index_guard)
  show ?thesis
    using assms(2)
    by (simp add: filter_loop_unfold [OF g] index_unat incr_int_index is_even_def)
qed

lemma filter_loop_end:
  assumes "length numbers \<le> k" and "int k \<le> INT_MAX" and "length numbers < 2 ^ 64"
  shows "filter_loop numbers (of_nat k) evenNumbers = Inr evenNumbers"
proof -
  have "\<not> to_size_t (of_nat k) < vec_size numbers"
    using assms by (simp add: index_guard)
  then show ?thesis by (rule filter_loop_exit)
qed

lemma short_vector:
  assumes "int (length data) \<le> INT_MAX"
  shows "length data < 2 ^ 64"
  using assms by (simp add: INT_MAX_def)

subsection \<open>The loops on vectors whose indices fit \<open>int\<close>, and on longer ones\<close>

lemma filter_loop_correct:
  assumes "int (length numbers) \<le> INT_MAX" and "k \<le> length numbers"
  shows "filter_loop numbers (of_nat k) evenNumbers =
    Inr (evenNumbers @ filter is_even (drop k numbers))"
  using assms(2)
proof (induction "length numbers - k" arbitrary: k evenNumbers)
  case 0
  then have "length numbers \<le> k" by simp
  moreover from 0 assms(1) have "int k \<le> INT_MAX" by simp
  ultimately show ?case
    using short_vector [OF assms(1)] by (simp add: filter_loop_end)
next
  case (Suc d)
  then have k: "k < length numbers" by simp
  with assms(1) have less: "int k < INT_MAX" by simp
  have drop: "drop k numbers = numbers ! k # drop (Suc k) numbers"
    using k by (simp add: Cons_nth_drop_Suc)
  have "filter_loop numbers (of_nat k) evenNumbers =
      filter_loop numbers (of_nat (Suc k))
        (if is_even (numbers ! k) then evenNumbers @ [numbers ! k] else evenNumbers)"
    using k less short_vector [OF assms(1)] by (simp add: filter_loop_at)
  also have "\<dots> = Inr ((if is_even (numbers ! k) then evenNumbers @ [numbers ! k] else evenNumbers)
      @ filter is_even (drop (Suc k) numbers))"
    using Suc.hyps(2) k by (intro Suc.hyps(1)) simp_all
  also have "\<dots> = Inr (evenNumbers @ filter is_even (drop k numbers))"
    by (simp add: drop)
  finally show ?case .
qed

lemma sumEvens_spec_take_Suc:
  assumes "k < length data"
  shows "sumEvens_spec (take (Suc k) data) =
    sumEvens_spec (take k data) + (if is_even (data ! k) then sint (data ! k) else 0)"
  using assms by (simp add: sumEvens_spec_def take_Suc_conv_app_nth)

lemma sum_loop_correct:
  assumes len: "int (length data) \<le> INT_MAX"
    and rng: "\<forall>n\<le>length data.
      INT_MIN \<le> sumEvens_spec (take n data) \<and> sumEvens_spec (take n data) \<le> INT_MAX"
    and "k \<le> length data" and "sint sm = sumEvens_spec (take k data)"
  shows "\<exists>s. sum_loop data (of_nat k) sm = Inr s \<and> sint s = sumEvens_spec data"
  using assms(3,4)
proof (induction "length data - k" arbitrary: k sm)
  case 0
  then have "length data \<le> k" by simp
  moreover from 0 len have "int k \<le> INT_MAX" by simp
  ultimately have "sum_loop data (of_nat k) sm = Inr sm"
    using short_vector [OF len] by (simp add: sum_loop_end)
  with 0 show ?case by simp
next
  case (Suc d)
  then have k: "k < length data" by simp
  with len have less: "int k < INT_MAX" by simp
  let ?x = "data ! k"
  let ?sm' = "if is_even ?x then sm + ?x else sm"
  from rng k have next_rng: "INT_MIN \<le> sumEvens_spec (take (Suc k) data)"
      "sumEvens_spec (take (Suc k) data) \<le> INT_MAX"
    by (simp_all add: Suc_le_eq)
  have sm': "(if is_even ?x then add_int sm ?x else Inr sm) = Inr ?sm' \<and>
      sint ?sm' = sumEvens_spec (take (Suc k) data)"
  proof (cases "is_even ?x")
    case True
    with next_rng Suc.prems(2) k
    have "INT_MIN \<le> sint sm + sint ?x" and "sint sm + sint ?x \<le> INT_MAX"
      and "sumEvens_spec (take (Suc k) data) = sint sm + sint ?x"
      by (simp_all add: sumEvens_spec_take_Suc)
    with True show ?thesis
      by (simp add: add_int_def sint_add_in_range)
  next
    case False
    with Suc.prems(2) k show ?thesis
      by (simp add: sumEvens_spec_take_Suc)
  qed
  have "sum_loop data (of_nat k) sm = sum_loop data (of_nat (Suc k)) ?sm'"
    using k less short_vector [OF len] sm' by (simp add: sum_loop_at)
  moreover have "\<exists>s. sum_loop data (of_nat (Suc k)) ?sm' = Inr s \<and> sint s = sumEvens_spec data"
    using Suc.hyps(2) k sm' by (intro Suc.hyps(1)) simp_all
  ultimately show ?case by simp
qed

lemma filter_loop_long:
  assumes "INT_MAX < int (length numbers)" and "length numbers < 2 ^ 64" and "int k \<le> INT_MAX"
  shows "filter_loop numbers (of_nat k) evenNumbers = Inl SignedOverflow"
  using assms(3)
proof (induction "nat (INT_MAX - int k)" arbitrary: k evenNumbers)
  case 0
  then have "int k = INT_MAX" by simp
  with assms(1,2) show ?case by (simp add: filter_loop_at)
next
  case (Suc d)
  then have "int k < INT_MAX" by simp
  moreover have "filter_loop numbers (of_nat (Suc k))
      (if is_even (numbers ! k) then evenNumbers @ [numbers ! k] else evenNumbers) =
      Inl SignedOverflow"
    using Suc.hyps(2) \<open>int k < INT_MAX\<close> by (intro Suc.hyps(1)) simp_all
  ultimately show ?case
    using assms(1,2) by (simp add: filter_loop_at)
qed

lemma sum_loop_long:
  assumes "INT_MAX < int (length data)" and "length data < 2 ^ 64" and "int k \<le> INT_MAX"
    and "\<forall>x\<in>set data. \<not> is_even x"
  shows "sum_loop data (of_nat k) sm = Inl SignedOverflow"
  using assms(3)
proof (induction "nat (INT_MAX - int k)" arbitrary: k)
  case 0
  then have "int k = INT_MAX" by simp
  with assms(1,2,4) show ?case by (simp add: sum_loop_at)
next
  case (Suc d)
  then have "int k < INT_MAX" by simp
  moreover have "sum_loop data (of_nat (Suc k)) sm = Inl SignedOverflow"
    using Suc.hyps(2) \<open>int k < INT_MAX\<close> by (intro Suc.hyps(1)) simp_all
  ultimately show ?case
    using assms(1,2,4) by (simp add: sum_loop_at)
qed

subsection \<open>Results of the filter loop\<close>

lemma running_sums_in_range_code [code]:
  "running_sums_in_range data =
     list_all (\<lambda>n. INT_MIN \<le> sumEvens_spec (take n data) \<and> sumEvens_spec (take n data) \<le> INT_MAX)
       [0..<Suc (length data)]"
  by (auto simp: running_sums_in_range_def list_all_iff less_Suc_eq_le)

lemma trunc_modulo_2_iff: "trunc_modulo a 2 = 0 \<longleftrightarrow> even a"
  unfolding trunc_modulo_def trunc_quotient_def by presburger

lemma filter_loop_Inr:
  "filter_loop numbers i evenNumbers = Inr E \<Longrightarrow>
     \<exists>ys. E = evenNumbers @ ys \<and> (\<forall>y\<in>set ys. is_even y) \<and> int (length ys) \<le> INT_MAX - sint i"
proof (induction numbers i evenNumbers rule: filter_loop.induct)
  case (1 numbers i evenNumbers)
  show ?case
  proof (cases "to_size_t i < vec_size numbers")
    case False
    with "1.prems" have "E = evenNumbers"
      by (simp add: filter_loop_exit)
    then show ?thesis
      using sint_le_INT_MAX [of i] by simp
  next
    case True
    note at = vec_at_guard [OF True]
    let ?x = "numbers ! unat (to_size_t i)"
    let ?ev = "if rem_int ?x 2 = 0 then evenNumbers @ [?x] else evenNumbers"
    from "1.prems" obtain i' where i': "incr_int i = Inr i'"
      and run: "filter_loop numbers i' ?ev = Inr E"
      by (auto simp: filter_loop_unfold [OF True] split: sum.splits)
    have "\<exists>ys. E = ?ev @ ys \<and> (\<forall>y\<in>set ys. is_even y) \<and> int (length ys) \<le> INT_MAX - sint i'"
      using "1.IH" [OF True at _ i', of ?ev] at run by simp
    then obtain ys where ys: "E = ?ev @ ys" "\<forall>y\<in>set ys. is_even y"
      "int (length ys) \<le> INT_MAX - sint i'"
      by blast
    from incr_int_Inr [OF i'] have step: "sint i' = sint i + 1" by blast
    show ?thesis
    proof (cases "rem_int ?x 2 = 0")
      case True
      with ys step have "E = evenNumbers @ (?x # ys)" "\<forall>y\<in>set (?x # ys). is_even y"
        "int (length (?x # ys)) \<le> INT_MAX - sint i"
        by (simp_all add: is_even_def)
      then show ?thesis by blast
    next
      case False
      with ys step have "E = evenNumbers @ ys" "int (length ys) \<le> INT_MAX - sint i"
        by simp_all
      with ys(2) show ?thesis by blast
    qed
  qed
qed

lemma filter_evens_short:
  assumes "int (length numbers) \<le> INT_MAX"
  shows "filter_evens numbers = Inr (filter is_even numbers)"
  using filter_loop_correct [OF assms, of 0 "[]"] by (simp add: filter_evens_def)

lemma filter_evens_fixed:
  assumes "filter_evens S = Inr E"
  shows "filter_evens E = Inr E"
proof -
  from assms obtain ys where "E = [] @ ys" "\<forall>y\<in>set ys. is_even y"
    "int (length ys) \<le> INT_MAX - sint (0 :: cint)"
    unfolding filter_evens_def by (blast dest: filter_loop_Inr)
  then have "int (length E) \<le> INT_MAX" "filter is_even E = E"
    by simp_all
  then show ?thesis
    by (simp add: filter_evens_short)
qed

lemma sum_loop_short:
  assumes "int (length data) \<le> INT_MAX" and "running_sums_in_range data"
  shows "\<exists>s. sum_loop data 0 0 = Inr s \<and> sint s = sumEvens_spec data"
proof -
  have "sint (0 :: cint) = sumEvens_spec (take 0 data)"
    by (simp add: sumEvens_spec_def)
  with sum_loop_correct [of data 0 0] assms show ?thesis
    by (simp add: running_sums_in_range_def)
qed

lemma is_even_iff_even: "is_even x \<longleftrightarrow> even (sint x)"
  by (simp add: is_even_def rem_int_2_eq_0_iff)

lemma filter_odd_replicate: "filter is_even (replicate n (1 :: cint)) = []"
  by (simp add: is_even_iff_even)

subsection \<open>Counting the jumps\<close>

lemma steps_add:
  "steps (m + n) data st =
     (case steps m data st of Inl e \<Rightarrow> Inl e | Inr st' \<Rightarrow> steps n data st')"
  by (induction m arbitrary: st) (simp_all split: sum.splits)

lemma steps_goto_run:
  "steps n data st = Inr (Loop_end, i, s) \<Longrightarrow> goto_run data st = Some (Inr s)"
proof (induction n arbitrary: st)
  case 0
  then show ?case by (simp add: goto_run_Loop_end)
next
  case (Suc n)
  then obtain st' where st': "step data st = Inr st'" "steps n data st' = Inr (Loop_end, i, s)"
    by (auto split: sum.splits)
  from Suc.IH [OF st'(2)] have run: "goto_run data st' = Some (Inr s)" .
  show ?case
  proof (cases "fst st = Loop_end")
    case True
    then have "st' = st"
      using st'(1) by (cases st) simp
    with run show ?thesis by simp
  next
    case False
    with st'(1) run show ?thesis
      by (subst goto_run.simps) simp
  qed
qed

lemma incr_int_Inl: "incr_int i = Inl e \<Longrightarrow> e = SignedOverflow"
  by (simp add: incr_int_def add_int_def split: if_splits)

lemma add_int_Inl: "add_int a b = Inl e \<Longrightarrow> e = SignedOverflow"
  by (simp add: add_int_def split: if_splits)

lemma steps_pass:
  assumes "to_size_t i < vec_size data"
  shows "\<exists>n\<le>5. case steps n data (Loop_start, i, sm) of
            Inl e \<Rightarrow> e = SignedOverflow
          | Inr (p, i', sm') \<Rightarrow> p = Loop_start \<and> sint i' = sint i + 1"
proof -
  note at = vec_at_guard [OF assms]
  let ?x = "data ! unat (to_size_t i)"
  from assms have guard: "\<not> vec_size data \<le> to_size_t i"
    by (simp add: not_le)
  show ?thesis
  proof (cases "rem_int ?x 2 \<noteq> 0")
    case odd: True
    show ?thesis
    proof (cases "incr_int i")
      case (Inl e)
      with odd guard at have "steps 3 data (Loop_start, i, sm) = Inl SignedOverflow"
        by (auto simp: eval_nat_numeral dest: incr_int_Inl)
      then show ?thesis
        by (intro exI [of _ 3]) simp
    next
      case (Inr i')
      with odd guard at have "steps 4 data (Loop_start, i, sm) = Inr (Loop_start, i', sm)"
        by (simp add: eval_nat_numeral)
      moreover from incr_int_Inr [OF Inr] have "sint i' = sint i + 1" by blast
      ultimately show ?thesis
        by (intro exI [of _ 4]) simp
    qed
  next
    case even: False
    show ?thesis
    proof (cases "add_int sm ?x")
      case (Inl e)
      with even guard at have "steps 3 data (Loop_start, i, sm) = Inl SignedOverflow"
        by (auto simp: eval_nat_numeral dest: add_int_Inl)
      then show ?thesis
        by (intro exI [of _ 3]) simp
    next
      case add: (Inr sm')
      show ?thesis
      proof (cases "incr_int i")
        case (Inl e)
        with even guard at add have "steps 4 data (Loop_start, i, sm) = Inl SignedOverflow"
          by (auto simp: eval_nat_numeral dest: incr_int_Inl)
        then show ?thesis
          by (intro exI [of _ 4]) simp
      next
        case (Inr i')
        with even guard at add
        have "steps 5 data (Loop_start, i, sm) = Inr (Loop_start, i', sm')"
          by (simp add: eval_nat_numeral)
        moreover from incr_int_Inr [OF Inr] have "sint i' = sint i + 1" by blast
        ultimately show ?thesis
          by (intro exI [of _ 5]) simp
      qed
    qed
  qed
qed

lemma steps_pass_at:
  assumes k: "k < length data" and len: "int (length data) \<le> INT_MAX"
    and sm': "(if is_even (data ! k) then add_int sm (data ! k) else Inr sm) = Inr sm'"
  shows "\<exists>n\<le>5. steps n data (Loop_start, of_nat k, sm) = Inr (Loop_start, of_nat (Suc k), sm')"
proof -
  from k len have less: "int k < INT_MAX" and le: "int k \<le> INT_MAX" by simp_all
  have g: "to_size_t (of_nat k) < vec_size data"
    using k le short_vector [OF len] by (simp add: index_guard)
  then have guard: "\<not> vec_size data \<le> to_size_t (of_nat k)"
    by (simp add: not_le)
  have at: "vec_at data (to_size_t (of_nat k)) = Inr (data ! k)"
    using vec_at_guard [OF g] le by (simp add: index_unat)
  have incr: "incr_int (of_nat k) = Inr (of_nat (Suc k))"
    using less by (rule incr_int_of_nat)
  show ?thesis
  proof (cases "is_even (data ! k)")
    case True
    with sm' guard at incr
    have "steps 5 data (Loop_start, of_nat k, sm) = Inr (Loop_start, of_nat (Suc k), sm')"
      by (simp add: eval_nat_numeral is_even_def)
    then show ?thesis
      by (intro exI [of _ 5]) simp
  next
    case False
    with sm' guard at incr
    have "steps 4 data (Loop_start, of_nat k, sm) = Inr (Loop_start, of_nat (Suc k), sm')"
      by (simp add: eval_nat_numeral is_even_def)
    then show ?thesis
      by (intro exI [of _ 4]) simp
  qed
qed

lemma steps_to_Loop_end:
  assumes len: "int (length data) \<le> INT_MAX"
    and rng: "running_sums_in_range data"
    and "k \<le> length data" and "sint sm = sumEvens_spec (take k data)"
  shows "\<exists>n s. n \<le> 5 * (length data - k) + 1
    \<and> steps n data (Loop_start, of_nat k, sm) = Inr (Loop_end, of_nat (length data), s)
    \<and> sint s = sumEvens_spec data"
  using assms(3,4)
proof (induction "length data - k" arbitrary: k sm)
  case 0
  then have k: "k = length data" by simp
  with len have "\<not> to_size_t (of_nat k) < vec_size data"
    using short_vector [OF len] by (simp add: index_guard)
  then have "vec_size data \<le> to_size_t (of_nat k)"
    by (simp add: not_less)
  then have s1: "steps 1 data (Loop_start, of_nat k, sm) = Inr (Loop_end, of_nat (length data), sm)"
    using k by simp
  from 0 k have total: "sint sm = sumEvens_spec data" by simp
  have "(1 :: nat) \<le> 5 * (length data - k) + 1" by simp
  with s1 total show ?case by blast
next
  case (Suc d)
  then have k: "k < length data" by simp
  let ?x = "data ! k"
  let ?sm' = "if is_even ?x then sm + ?x else sm"
  from rng k have next_rng: "INT_MIN \<le> sumEvens_spec (take (Suc k) data)"
      "sumEvens_spec (take (Suc k) data) \<le> INT_MAX"
    by (simp_all add: running_sums_in_range_def Suc_le_eq)
  have sm': "(if is_even ?x then add_int sm ?x else Inr sm) = Inr ?sm' \<and>
      sint ?sm' = sumEvens_spec (take (Suc k) data)"
  proof (cases "is_even ?x")
    case True
    with next_rng Suc.prems(2) k
    have "INT_MIN \<le> sint sm + sint ?x" and "sint sm + sint ?x \<le> INT_MAX"
      and "sumEvens_spec (take (Suc k) data) = sint sm + sint ?x"
      by (simp_all add: sumEvens_spec_take_Suc)
    with True show ?thesis
      by (simp add: add_int_def sint_add_in_range)
  next
    case False
    with Suc.prems(2) k show ?thesis
      by (simp add: sumEvens_spec_take_Suc)
  qed
  from sm' steps_pass_at [OF k len, of sm ?sm'] obtain n1 where n1: "n1 \<le> 5"
    "steps n1 data (Loop_start, of_nat k, sm) = Inr (Loop_start, of_nat (Suc k), ?sm')"
    by blast
  have "\<exists>n s. n \<le> 5 * (length data - Suc k) + 1
    \<and> steps n data (Loop_start, of_nat (Suc k), ?sm') = Inr (Loop_end, of_nat (length data), s)
    \<and> sint s = sumEvens_spec data"
    using Suc.hyps(2) k sm' by (intro Suc.hyps(1)) simp_all
  then obtain n2 s where n2: "n2 \<le> 5 * (length data - Suc k) + 1"
    "steps n2 data (Loop_start, of_nat (Suc k), ?sm') = Inr (Loop_end, of_nat (length data), s)"
    "sint s = sumEvens_spec data"
    by blast
  from n1(2) n2(2)
  have "steps (n1 + n2) data (Loop_start, of_nat k, sm) = Inr (Loop_end, of_nat (length data), s)"
    by (simp add: steps_add)
  moreover from n1(1) n2(1) k have "n1 + n2 \<le> 5 * (length data - k) + 1"
    by simp
  ultimately show ?case
    using n2(3) by blast
qed

section \<open>The claims\<close>

text \<open>
  C1, as the code has it. For every sequence of at most \<open>INT_MAX\<close> elements whose running
  totals of even elements all are values of \<open>int\<close>, \<open>sum_evens_structured\<close> computes the
  sum of exactly the elements for which \<open>is_even\<close> holds, taken in order, and its only
  effect is to write \<open>Total: \<close>, that sum and a line end; for the empty sequence the sum
  is 0. The vector is read only.
\<close>

theorem sum_evens_structured_correct:
  assumes "int (length data) \<le> INT_MAX" and "running_sums_in_range data"
  shows "(\<exists>s. sum_evens_structured data = Inr [Str ''Total: '', Num s, Endl]
            \<and> sint s = sumEvens_spec data)
         \<and> sum_evens_structured [] = Inr [Str ''Total: '', Num 0, Endl]"
proof -
  from sum_loop_short [OF assms] obtain s where "sum_loop data 0 0 = Inr s"
    and "sint s = sumEvens_spec data"
    by blast
  then have "\<exists>s. sum_evens_structured data = Inr [Str ''Total: '', Num s, Endl]
      \<and> sint s = sumEvens_spec data"
    by (simp add: sum_evens_structured_def)
  moreover have "sum_evens_structured [] = Inr [Str ''Total: '', Num 0, Endl]"
    by code_simp
  ultimately show ?thesis by simp
qed

theorem sum_evens_structured_correct_witness:
  "int (length [3, 6, - 8 :: cint]) \<le> INT_MAX \<and> running_sums_in_range [3, 6, - 8]
   \<and> (\<exists>s. sum_evens_structured [3, 6, - 8] = Inr [Str ''Total: '', Num s, Endl] \<and> sint s = - 2)"
proof -
  have len: "int (length [3, 6, - 8 :: cint]) \<le> INT_MAX"
    by (simp add: INT_MAX_def)
  have rng: "running_sums_in_range [3, 6, - 8]"
    by code_simp
  have total: "sumEvens_spec [3, 6, - 8] = - 2"
    by code_simp
  from sum_evens_structured_correct [OF len rng] len rng show ?thesis
    by (simp only: total simp_thms)
qed

text \<open>
  Where C1 fails as stated: on \<open>[2147483646, 2]\<close> the sum of the even elements is
  2147483648, which is no \<open>int\<close>, and \<open>sum += data[i]\<close> overflows; on
  \<open>[2147483646, 2, -2]\<close> the sum is an \<open>int\<close>, but the running total after two
  elements is not; on a vector of 2147483648 odd elements the sum is 0, and \<open>i++\<close>
  overflows at \<open>INT_MAX\<close>.
\<close>

theorem sum_evens_structured_counterexample:
  "sum_evens_structured [2147483646, 2] = Inl SignedOverflow
   \<and> sumEvens_spec [2147483646, 2] = 2147483648
   \<and> sum_evens_structured [2147483646, 2, - 2] = Inl SignedOverflow
   \<and> sumEvens_spec [2147483646, 2, - 2] = 2147483646
   \<and> sum_evens_structured (replicate 2147483648 1) = Inl SignedOverflow
   \<and> sumEvens_spec (replicate 2147483648 1) = 0"
proof -
  have "sum_evens_structured [2147483646, 2] = Inl SignedOverflow"
    by code_simp
  moreover have "sumEvens_spec [2147483646, 2] = 2147483648"
    by code_simp
  moreover have "sum_evens_structured [2147483646, 2, - 2] = Inl SignedOverflow"
    by code_simp
  moreover have "sumEvens_spec [2147483646, 2, - 2] = 2147483646"
    by code_simp
  moreover have "sum_loop (replicate 2147483648 1) (of_nat 0) 0 = Inl SignedOverflow"
    by (rule sum_loop_long) (simp_all add: INT_MAX_def is_even_iff_even)
  then have "sum_evens_structured (replicate 2147483648 1) = Inl SignedOverflow"
    by (simp add: sum_evens_structured_def)
  moreover have "sumEvens_spec (replicate 2147483648 1) = 0"
    by (simp add: sumEvens_spec_def filter_odd_replicate)
  ultimately show ?thesis by simp
qed

text \<open>
  C2, as the code has it. For every sequence of at most \<open>INT_MAX\<close> elements, the filter
  loop of \<open>main\<close> yields a new sequence of exactly the elements for which \<open>is_even\<close>
  holds, in their original order; \<open>[5,4,3,2,1]\<close> gives \<open>[4,2]\<close> and the empty
  sequence gives the empty sequence.
\<close>

theorem filter_evens_correct:
  assumes "int (length numbers) \<le> INT_MAX"
  shows "filter_evens numbers = Inr (filter is_even numbers)
         \<and> filter_evens [5, 4, 3, 2, 1] = Inr [4, 2]
         \<and> filter_evens [] = Inr []"
proof -
  have "filter_evens [5, 4, 3, 2, 1] = Inr [4, 2]" and "filter_evens [] = Inr []"
    by code_simp+
  with filter_evens_short [OF assms] show ?thesis by simp
qed

theorem filter_evens_correct_witness:
  "int (length [7, 8, - 10 :: cint]) \<le> INT_MAX \<and> filter_evens [7, 8, - 10] = Inr [8, - 10]"
proof -
  have len: "int (length [7, 8, - 10 :: cint]) \<le> INT_MAX"
    by (simp add: INT_MAX_def)
  have evens: "filter is_even [7, 8, - 10] = [8, - 10]"
    by code_simp
  from filter_evens_correct [OF len] len show ?thesis
    by (simp only: evens simp_thms)
qed

text \<open>
  Where C2 fails as stated: a vector of 2147483648 odd elements has no even element,
  but the loop does not yield the empty sequence: \<open>++i\<close> overflows at \<open>INT_MAX\<close>.
\<close>

theorem filter_evens_counterexample:
  "filter_evens (replicate 2147483648 1) = Inl SignedOverflow
   \<and> filter is_even (replicate 2147483648 1) = []"
proof -
  have "filter_loop (replicate 2147483648 1) (of_nat 0) [] = Inl SignedOverflow"
    by (rule filter_loop_long) (simp_all add: INT_MAX_def)
  then show ?thesis
    by (simp add: filter_evens_def filter_odd_replicate)
qed

text \<open>
  C3. For every \<open>int\<close> value \<open>x\<close>, \<open>is_even x\<close> is true exactly when \<open>x\<close> modulo 2,
  with the modulo that truncates towards zero, is 0; \<open>is_even (-2)\<close> is true and
  \<open>is_even (-3)\<close> is false. \<open>is_even\<close> has no error value: it is a total function
  into \<open>bool\<close>.
\<close>

theorem is_even_trunc_modulo:
  "is_even x = (trunc_modulo (sint x) 2 = 0) \<and> is_even (- 2) \<and> \<not> is_even (- 3)"
proof -
  have "is_even x = (trunc_modulo (sint x) 2 = 0)"
    by (simp add: is_even_iff_even trunc_modulo_2_iff)
  moreover have "is_even (- 2)" and "\<not> is_even (- 3)"
    by (simp_all add: is_even_iff_even)
  ultimately show ?thesis by simp
qed

text \<open>
  C4. For every sequence, the label-and-jump version reaches its end or stops exactly
  as the structured version does, and then writes the same output: the run of
  \<open>sum_evens_non_structured\<close> always returns, and what it returns is the result of
  \<open>sum_evens_structured\<close>.
\<close>

theorem non_structured_eq_structured:
  "sum_evens_non_structured data = Some (sum_evens_structured data)"
  by (simp add: sum_evens_non_structured_def sum_evens_structured_def goto_run_eq_sum_loop
      split: sum.splits)

text \<open>
  C5, as the code has it. For every sequence of at most \<open>INT_MAX\<close> elements whose running
  totals of even elements all are values of \<open>int\<close>, the sum that \<open>sum_evens_structured\<close>
  computes is the sum of the elements of the sequence that the filter loop yields.
\<close>

theorem sum_evens_eq_sum_filter_evens:
  assumes "int (length data) \<le> INT_MAX" and "running_sums_in_range data"
  shows "\<exists>s E. sum_evens_structured data = Inr [Str ''Total: '', Num s, Endl]
           \<and> filter_evens data = Inr E
           \<and> sint s = sum_list (map sint E)"
proof -
  from sum_loop_short [OF assms] obtain s where "sum_loop data 0 0 = Inr s"
    and "sint s = sumEvens_spec data"
    by blast
  then have "sum_evens_structured data = Inr [Str ''Total: '', Num s, Endl]"
    and "sint s = sum_list (map sint (filter is_even data))"
    by (simp_all add: sum_evens_structured_def sumEvens_spec_def)
  with filter_evens_short [OF assms(1)] show ?thesis by blast
qed

theorem sum_evens_eq_sum_filter_evens_witness:
  "int (length [4, 5, 6 :: cint]) \<le> INT_MAX \<and> running_sums_in_range [4, 5, 6]
   \<and> (\<exists>s E. sum_evens_structured [4, 5, 6] = Inr [Str ''Total: '', Num s, Endl]
          \<and> filter_evens [4, 5, 6] = Inr E
          \<and> sint s = sum_list (map sint E))"
proof -
  have len: "int (length [4, 5, 6 :: cint]) \<le> INT_MAX"
    by (simp add: INT_MAX_def)
  have rng: "running_sums_in_range [4, 5, 6]"
    by code_simp
  from sum_evens_eq_sum_filter_evens [OF len rng] len rng show ?thesis
    by (simp only: simp_thms)
qed

text \<open>
  Where C5 fails as stated: on \<open>[2147483646, 2]\<close> the filter loop yields both elements,
  whose sum 2147483648 is no \<open>int\<close>, and \<open>sum_evens_structured\<close> overflows; on a
  vector of 2147483648 odd elements neither loop yields a result.
\<close>

theorem sum_evens_eq_sum_filter_evens_counterexample:
  "filter_evens [2147483646, 2] = Inr [2147483646, 2]
   \<and> sum_list (map sint [2147483646, 2 :: cint]) = 2147483648
   \<and> sum_evens_structured [2147483646, 2] = Inl SignedOverflow
   \<and> filter_evens (replicate 2147483648 1) = Inl SignedOverflow
   \<and> sum_evens_structured (replicate 2147483648 1) = Inl SignedOverflow"
proof -
  have "filter_evens [2147483646, 2] = Inr [2147483646, 2]
      \<and> sum_list (map sint [2147483646, 2 :: cint]) = 2147483648
      \<and> sum_evens_structured [2147483646, 2] = Inl SignedOverflow"
    by code_simp
  moreover have "filter_loop (replicate 2147483648 1) (of_nat 0) [] = Inl SignedOverflow"
    by (rule filter_loop_long) (simp_all add: INT_MAX_def)
  then have "filter_evens (replicate 2147483648 1) = Inl SignedOverflow"
    by (simp add: filter_evens_def)
  moreover have "sum_loop (replicate 2147483648 1) (of_nat 0) 0 = Inl SignedOverflow"
    by (rule sum_loop_long) (simp_all add: INT_MAX_def is_even_iff_even)
  then have "sum_evens_structured (replicate 2147483648 1) = Inl SignedOverflow"
    by (simp add: sum_evens_structured_def)
  ultimately show ?thesis by simp
qed

text \<open>
  C6. The filter loop applied to its own result changes nothing: for every sequence,
  running the loop on what the loop yields gives that sequence again (and a run that
  stops at the overflow of \<open>++i\<close> stops the composition in the same way); on every
  sequence of at most \<open>INT_MAX\<close> elements the loop does yield a sequence.
\<close>

theorem filter_evens_idempotent:
  "(case filter_evens S of Inl e \<Rightarrow> Inl e | Inr E \<Rightarrow> filter_evens E) = filter_evens S
   \<and> (int (length S) \<le> INT_MAX \<longrightarrow> (\<exists>E. filter_evens S = Inr E \<and> filter_evens E = Inr E))"
proof -
  have "(case filter_evens S of Inl e \<Rightarrow> Inl e | Inr E \<Rightarrow> filter_evens E) = filter_evens S"
    by (simp add: filter_evens_fixed split: sum.splits)
  moreover have "\<exists>E. filter_evens S = Inr E \<and> filter_evens E = Inr E"
    if "int (length S) \<le> INT_MAX"
    using filter_evens_short [OF that] by (simp add: filter_evens_fixed)
  ultimately show ?thesis by simp
qed

theorem filter_evens_idempotent_witness:
  "int (length [5, 4, 3, 2, 1 :: cint]) \<le> INT_MAX
   \<and> filter_evens [5, 4, 3, 2, 1] = Inr [4, 2] \<and> filter_evens [4, 2] = Inr [4, 2]"
proof -
  have len: "int (length [5, 4, 3, 2, 1 :: cint]) \<le> INT_MAX"
    by (simp add: INT_MAX_def)
  have first: "filter_evens [5, 4, 3, 2, 1] = Inr [4, 2]"
    by code_simp
  from filter_evens_idempotent [of "[5, 4, 3, 2, 1]"] len first show ?thesis
    by simp
qed

text \<open>
  C7. On \<open>[1,2,3,4,5,6,7,8,9,10]\<close> the sum of the even elements is 30, in both
  versions, and the filter loop of \<open>main\<close> yields \<open>[2,4,6,8,10]\<close>, which \<open>main\<close>
  prints.
\<close>

theorem scenario_one_to_ten:
  "sum_evens_structured [1, 2, 3, 4, 5, 6, 7, 8, 9, 10] = Inr [Str ''Total: '', Num 30, Endl]
   \<and> sum_evens_non_structured [1, 2, 3, 4, 5, 6, 7, 8, 9, 10] =
       Some (Inr [Str ''Total: '', Num 30, Endl])
   \<and> filter_evens [1, 2, 3, 4, 5, 6, 7, 8, 9, 10] = Inr [2, 4, 6, 8, 10]
   \<and> main =
       Inr ([Str ''Even numbers: '', Num 2, Str '' '', Num 4, Str '' '', Num 6, Str '' '',
             Num 8, Str '' '', Num 10, Str '' ''], 0)"
  by code_simp

text \<open>
  C8. On \<open>[-4,-3,-2,-1,0]\<close> the filter loop yields \<open>[-4,-2,0]\<close> and the sum of the even
  elements is the \<open>int\<close> -6.
\<close>

theorem scenario_negative:
  "filter_evens [- 4, - 3, - 2, - 1, 0] = Inr [- 4, - 2, 0]
   \<and> sum_evens_structured [- 4, - 3, - 2, - 1, 0] = Inr [Str ''Total: '', Num (- 6), Endl]
   \<and> sint (- 6 :: cint) = - 6"
  by code_simp

text \<open>
  C9. In the structured loop, in the label-and-jump loop and in the filter loop of
  \<open>main\<close>, started at \<open>loop_start\<close> (the loop test) with any \<open>i\<close>, no \<open>data[i]\<close> or
  \<open>numbers[i]\<close> is ever outside the vector: the \<open>OutOfBounds\<close> branch of \<open>vec_at\<close> is
  never taken, for any vector.
\<close>

theorem index_never_out_of_bounds:
  "sum_loop data i sm \<noteq> Inl OutOfBounds
   \<and> goto_run data (Loop_start, i, sm) \<noteq> Some (Inl OutOfBounds)
   \<and> filter_loop data i evenNumbers \<noteq> Inl OutOfBounds
   \<and> sum_evens_structured data \<noteq> Inl OutOfBounds
   \<and> sum_evens_non_structured data \<noteq> Some (Inl OutOfBounds)
   \<and> filter_evens data \<noteq> Inl OutOfBounds"
proof -
  have loop: "sum_loop data j t \<noteq> Inl OutOfBounds" for j t
    by (rule sum_loop_not_OutOfBounds)
  have "sum_evens_structured data \<noteq> Inl OutOfBounds"
    using loop [of 0 0] by (auto simp: sum_evens_structured_def split: sum.splits)
  moreover have "sum_evens_non_structured data \<noteq> Some (Inl OutOfBounds)"
    using loop [of 0 0]
    by (auto simp: sum_evens_non_structured_def goto_run_eq_sum_loop split: sum.splits)
  moreover have "goto_run data (Loop_start, i, sm) \<noteq> Some (Inl OutOfBounds)"
    using loop [of i sm] by (simp add: goto_run_eq_sum_loop)
  ultimately show ?thesis
    using loop [of i sm] filter_loop_not_OutOfBounds
    by (simp add: filter_evens_def)
qed

text \<open>
  C10, as the code has it. On every vector the run of the label-and-jump loop stops: at
  \<open>loop_end\<close>, or at a signed overflow. For every sequence of at most \<open>INT_MAX\<close>
  elements whose running totals of even elements all are values of \<open>int\<close>, it reaches
  \<open>loop_end\<close>, with \<open>i\<close> equal to the size, after at most five jumps for each element
  and one more. On any vector, a pass that starts at \<open>loop_start\<close> with \<open>i\<close> below the
  size comes back to \<open>loop_start\<close> within five jumps with \<open>i\<close> greater by exactly one,
  through the even branch or the odd one, unless it stops at a signed overflow.
\<close>

theorem goto_loop_terminates:
  "(\<exists>r. goto_run data (Loop_start, 0, 0) = Some r)
   \<and> (int (length data) \<le> INT_MAX \<and> running_sums_in_range data \<longrightarrow>
        (\<exists>n s. n \<le> 5 * length data + 1
           \<and> steps n data (Loop_start, 0, 0) = Inr (Loop_end, of_nat (length data), s)
           \<and> goto_run data (Loop_start, 0, 0) = Some (Inr s)))
   \<and> (\<forall>i sm. to_size_t i < vec_size data \<longrightarrow>
        (\<exists>n\<le>5. case steps n data (Loop_start, i, sm) of
                   Inl e \<Rightarrow> e = SignedOverflow
                 | Inr (p, i', sm') \<Rightarrow> p = Loop_start \<and> sint i' = sint i + 1))"
proof -
  have stops: "\<exists>r. goto_run data (Loop_start, 0, 0) = Some r"
    by (simp add: goto_run_eq_sum_loop)
  have reaches: "\<exists>n s. n \<le> 5 * length data + 1
      \<and> steps n data (Loop_start, 0, 0) = Inr (Loop_end, of_nat (length data), s)
      \<and> goto_run data (Loop_start, 0, 0) = Some (Inr s)"
    if len: "int (length data) \<le> INT_MAX" and rng: "running_sums_in_range data"
  proof -
    have "sint (0 :: cint) = sumEvens_spec (take 0 data)"
      by (simp add: sumEvens_spec_def)
    with steps_to_Loop_end [OF len rng, of 0 0] obtain n s where n: "n \<le> 5 * length data + 1"
      and run: "steps n data (Loop_start, 0, 0) = Inr (Loop_end, of_nat (length data), s)"
      by auto
    from steps_goto_run [OF run] have "goto_run data (Loop_start, 0, 0) = Some (Inr s)" .
    with n run show ?thesis by blast
  qed
  from stops reaches show ?thesis
    using steps_pass [of _ data] by blast
qed

theorem goto_loop_terminates_witness:
  "int (length [1, 2, 3 :: cint]) \<le> INT_MAX \<and> running_sums_in_range [1, 2, 3]
   \<and> (\<exists>n s. n \<le> 16 \<and> steps n [1, 2, 3] (Loop_start, 0, 0) = Inr (Loop_end, 3, s)
          \<and> goto_run [1, 2, 3] (Loop_start, 0, 0) = Some (Inr s))"
proof -
  have len: "int (length [1, 2, 3 :: cint]) \<le> INT_MAX"
    by (simp add: INT_MAX_def)
  have rng: "running_sums_in_range [1, 2, 3]"
    by code_simp
  from goto_loop_terminates [of "[1, 2, 3]"] len rng show ?thesis
    by simp
qed

text \<open>
  Where C10 fails as stated: on a vector of 2147483648 elements \<open>i\<close> cannot increase
  on every pass, \<open>i++\<close> overflows at \<open>INT_MAX\<close> and \<open>loop_end\<close> is not reached; on
  \<open>[2147483646, 2]\<close> the run stops at the overflow of \<open>sum += data[i]\<close>.
\<close>

theorem goto_loop_counterexample:
  "goto_run (replicate 2147483648 1) (Loop_start, 0, 0) = Some (Inl SignedOverflow)
   \<and> goto_run [2147483646, 2] (Loop_start, 0, 0) = Some (Inl SignedOverflow)"
proof -
  have "sum_loop (replicate 2147483648 1) (of_nat 0) 0 = Inl SignedOverflow"
    by (rule sum_loop_long) (simp_all add: INT_MAX_def is_even_iff_even)
  then have "goto_run (replicate 2147483648 1) (Loop_start, 0, 0) = Some (Inl SignedOverflow)"
    by (simp add: goto_run_eq_sum_loop)
  moreover have "goto_run [2147483646, 2] (Loop_start, 0, 0) = Some (Inl SignedOverflow)"
    by code_simp
  ultimately show ?thesis by simp
qed

end
